theory Spec2Isabelle
  imports Complex_Main "HOL-Library.Sublist"
begin

section \<open>The page-break plugin of html2pdf (src/plugin/pagebreaks.js)\<close>

text \<open>
  The plugin wraps \<^verbatim>\<open>Worker.prototype.toContainer\<close>: once the container has been laid out
  it tags every element with a \<^verbatim>\<open>uid\<close> attribute, walks all elements below the root in
  document order and inserts padding \<^verbatim>\<open>div\<close>s that push content to the next page.

  Conventions of the embedding.
  \<^item> The DOM below the container root is a rose tree. A node carries its identity (a JS
    object reference, here a \<open>label\<close>), its \<^verbatim>\<open>uid\<close> attribute (\<open>None\<close> for \<^verbatim>\<open>null\<close>) and its
    element children. Elements of the document are labelled \<open>El n\<close>; the \<^verbatim>\<open>div\<close>s the plugin
    creates are labelled \<open>Pad h\<close> with their height.
  \<^item> JavaScript numbers are idealised as real numbers, with \<^verbatim>\<open>NaN\<close> written out where the
    plugin can produce it (a page height of zero).
  \<^item> Layout, style resolution and selector matching belong to the host browser; they are
    parameters (\<open>browser\<close>) that may depend on the current tree.
\<close>

subsection \<open>Numbers\<close>

text \<open>\<^verbatim>\<open>a % b\<close> on numbers: the remainder of the division truncated towards zero, carrying the
  sign of the dividend. (For \<open>b = 0\<close> JavaScript gives \<^verbatim>\<open>NaN\<close>; callers test for it.)\<close>

definition trunc :: "real \<Rightarrow> int" where
  "trunc x = (if 0 \<le> x then \<lfloor>x\<rfloor> else \<lceil>x\<rceil>)"

definition js_rem :: "real \<Rightarrow> real \<Rightarrow> real" where
  "js_rem a b = a - b * of_int (trunc (a / b))"

text \<open>The string \<^verbatim>\<open>(pxPageHeight - y % pxPageHeight) + 'px'\<close>.\<close>

datatype height = Px real | NaNpx

definition fill_height :: "real \<Rightarrow> real \<Rightarrow> height" where
  "fill_height pxPageHeight y =
     (if pxPageHeight = 0 then NaNpx else Px (pxPageHeight - js_rem y pxPageHeight))"

subsection \<open>The DOM\<close>

datatype label = El nat | Pad height

datatype node = Node (label: label) (attr_uid: "string option") (children: "node list")

text \<open>Document order (pre-order) of a subtree, and \<^verbatim>\<open>root.querySelectorAll('*')\<close>: every
  element below the root, the root excluded, as a static list.\<close>

fun labels :: "node \<Rightarrow> label list" where
  "labels (Node a u ks) = a # concat (map labels ks)"

definition querySelectorAll_star :: "node \<Rightarrow> label list" where
  "querySelectorAll_star rootEl = concat (map labels (children rootEl))"

text \<open>\<^verbatim>\<open>el.getAttribute('uid')\<close> for the element with reference \<open>l\<close> in the current tree:
  \<open>None\<close> is \<^verbatim>\<open>null\<close>. (A reference to an element that is not in the tree answers \<open>None\<close> as
  well; the walk holds references to elements of the container only, and none is removed.)\<close>

fun first_some :: "'a option list \<Rightarrow> 'a option" where
  "first_some [] = None"
| "first_some (None # xs) = first_some xs"
| "first_some (Some x # xs) = Some x"

fun find_node :: "label \<Rightarrow> node \<Rightarrow> node option" where
  "find_node l (Node a u ks) =
     (if a = l then Some (Node a u ks) else first_some (map (find_node l) ks))"

definition getAttribute_uid :: "node \<Rightarrow> label \<Rightarrow> string option" where
  "getAttribute_uid doc l = (case find_node l doc of None \<Rightarrow> None | Some n \<Rightarrow> attr_uid n)"

text \<open>\<^verbatim>\<open>el.parentNode.insertBefore(pad, el)\<close> and
  \<^verbatim>\<open>el.parentNode.insertBefore(pad, el.nextSibling)\<close>: the new node becomes the sibling
  directly before, respectively directly after, the child with reference \<open>l\<close>. The
  functions are called for elements below the root only, which have a parent; for any
  other reference they leave the tree as it is.\<close>

fun insertBefore :: "node \<Rightarrow> label \<Rightarrow> node \<Rightarrow> node" where
  "insertBefore pad l (Node a u ks) =
     Node a u (concat (map (\<lambda>k. if label k = l then [pad, k] else [insertBefore pad l k]) ks))"

fun insertAfter :: "node \<Rightarrow> label \<Rightarrow> node \<Rightarrow> node" where
  "insertAfter pad l (Node a u ks) =
     Node a u (concat (map (\<lambda>k. if label k = l then [k, pad] else [insertAfter pad l k]) ks))"

text \<open>Modelled from the spec: \<^verbatim>\<open>createElement\<close> of \<^verbatim>\<open>utils.js\<close> is not part of the sources at
  hand. The spec's spacer is "a synthetic block element with a single computed height": a
  fresh childless \<^verbatim>\<open>div\<close> without a \<^verbatim>\<open>uid\<close> attribute.\<close>

definition createElement_div :: "height \<Rightarrow> node" where
  "createElement_div h = Node (Pad h) None []"

subsection \<open>addUIDRecursive\<close>

text \<open>The template literal \<^verbatim>\<open>`${uid}${index}`\<close> appends the decimal numeral of the index.\<close>

definition digit :: "nat \<Rightarrow> char" where
  "digit d = char_of (48 + d)"

function decimal :: "nat \<Rightarrow> string" where
  "decimal n = (if n < 10 then [digit n] else decimal (n div 10) @ [digit (n mod 10)])"
  by pat_completeness auto
termination
  by (relation "measure id") auto

declare decimal.simps [simp del]

function addUIDRecursive :: "node \<Rightarrow> string \<Rightarrow> node" where
  "addUIDRecursive (Node a u ks) uid =
     Node a (Some uid)
       (map (\<lambda>(index, childElement). addUIDRecursive childElement (uid @ decimal index))
            (zip [0 ..< length ks] ks))"
  by pat_completeness auto
termination
proof (relation "measure (\<lambda>(n, uid). size n)")
  fix a :: label and u :: "string option" and ks :: "node list" and uid :: string
    and x :: "nat \<times> node" and index :: nat and childElement :: node
  assume "x \<in> set (zip [0 ..< length ks] ks)" and "(index, childElement) = x"
  then have "childElement \<in> set ks"
    by (auto dest: set_zip_rightD)
  moreover have "k \<in> set ks \<Longrightarrow> size k < Suc (size_list size ks)" for k :: node
    by (induction ks) auto
  ultimately show "((childElement, uid @ decimal index), (Node a u ks, uid))
      \<in> measure (\<lambda>(n, uid). size n)"
    by simp
qed simp

subsection \<open>The host browser and the plugin's options\<close>

text \<open>The six properties of a \<^verbatim>\<open>CSSStyleDeclaration\<close> the plugin reads; a property the
  browser does not know (\<^verbatim>\<open>undefined\<close>) is the empty string, which is falsy as well.\<close>

record style =
  style_breakBefore :: string
  style_pageBreakBefore :: string
  style_breakAfter :: string
  style_pageBreakAfter :: string
  style_breakInside :: string
  style_pageBreakInside :: string

record rect =
  rect_top :: real
  rect_bottom :: real

datatype error = TypeError | SyntaxError

text \<open>\<open>querySelectorAll\<close> answers \<open>None\<close> where the browser throws on an invalid selector.\<close>

record browser =
  getComputedStyle :: "node \<Rightarrow> label \<Rightarrow> style"
  getBoundingClientRect :: "node \<Rightarrow> label \<Rightarrow> rect"
  querySelectorAll :: "node \<Rightarrow> string \<Rightarrow> label list option"

text \<open>\<^verbatim>\<open>opt.pagebreak\<close>, each field already a list (\<^verbatim>\<open>[].concat(x)\<close> wraps a single string).\<close>

record pagebreak =
  opt_mode :: "string list"
  opt_before :: "string list"
  opt_after :: "string list"
  opt_avoid :: "string list"

record mode =
  avoidAll :: bool
  css :: bool
  legacy :: bool

record select =
  select_before :: "label list"
  select_after :: "label list"
  select_avoid :: "label list"

record rules =
  rules_before :: bool
  rules_after :: bool
  rules_avoid :: bool

subsection \<open>Break rules of one element (lines 116 to 141)\<close>

definition js_or :: "string \<Rightarrow> string \<Rightarrow> string" where
  "js_or a b = (if a \<noteq> [] then a else b)"

definition breakOpt :: "string list" where
  "breakOpt = [''always'', ''page'', ''left'', ''right'']"

definition avoidOpt :: "string list" where
  "avoidOpt = [''avoid'', ''avoid-page'']"

definition resolve_rules :: "mode \<Rightarrow> label list \<Rightarrow> select \<Rightarrow> style \<Rightarrow> label \<Rightarrow> rules" where
  "resolve_rules m legacyEls sel st el =
     (let rules0 = \<lparr>rules_before = False,
                    rules_after = (legacy m \<and> el \<in> set legacyEls),
                    rules_avoid = avoidAll m\<rparr>;
          rules1 = (if css m then
                     \<lparr>rules_before = (rules_before rules0
                                \<or> js_or (style_breakBefore st) (style_pageBreakBefore st) \<in> set breakOpt),
                      rules_after = (rules_after rules0
                                \<or> js_or (style_breakAfter st) (style_pageBreakAfter st) \<in> set breakOpt),
                      rules_avoid = (rules_avoid rules0
                                \<or> js_or (style_breakInside st) (style_pageBreakInside st) \<in> set avoidOpt)\<rparr>
                   else rules0)
      in \<lparr>rules_before = (rules_before rules1 \<or> el \<in> set (select_before sel)),
          rules_after = (rules_after rules1 \<or> el \<in> set (select_after sel)),
          rules_avoid = (rules_avoid rules1 \<or> el \<in> set (select_avoid sel))\<rparr>)"

subsection \<open>Avoid: a break in the middle of the element (lines 171 to 181)\<close>

text \<open>With a page height of zero both quotients are infinite or \<^verbatim>\<open>NaN\<close> and
  \<^verbatim>\<open>nPages <= 1\<close> is false, so nothing is switched on.\<close>

definition avoid_rule :: "real \<Rightarrow> rect \<Rightarrow> rules \<Rightarrow> rules" where
  "avoid_rule pxPageHeight clientRect rs =
     (if rules_avoid rs \<and> \<not> rules_before rs then
        (let startPage = \<lfloor>rect_top clientRect / pxPageHeight\<rfloor>;
             endPage = \<lfloor>(rect_bottom clientRect - 1) / pxPageHeight\<rfloor>;
             nPages = \<bar>rect_bottom clientRect - rect_top clientRect\<bar> / pxPageHeight
         in if pxPageHeight \<noteq> 0 \<and> endPage \<noteq> startPage \<and> nPages \<le> 1
            then rs\<lparr>rules_before := True\<rparr> else rs)
      else rs)"

subsection \<open>Deferred breaks after an element (lines 98 to 109, 143 to 165)\<close>

text \<open>An entry of the array \<^verbatim>\<open>breakAfter\<close> is \<^verbatim>\<open>[uid, fn, executed]\<close>. The closure \<^verbatim>\<open>fn\<close> is
  determined by the element it captured, which stands for it here.\<close>

type_synonym entry = "string option \<times> label \<times> bool"

text \<open>\<^verbatim>\<open>startsWith\<close> converts its argument to a string; \<^verbatim>\<open>null\<close> reads \<^verbatim>\<open>"null"\<close>.\<close>

definition js_string :: "string option \<Rightarrow> string" where
  "js_string u = (case u of None \<Rightarrow> ''null'' | Some s \<Rightarrow> s)"

text \<open>\<open>cur\<close> is \<^verbatim>\<open>currentEl.getAttribute('uid')\<close>. The second filter calls \<^verbatim>\<open>startsWith\<close> on
  it once per unexecuted entry, which throws a TypeError on \<^verbatim>\<open>null\<close>.\<close>

definition pendingBreakAfters :: "entry list \<Rightarrow> string option \<Rightarrow> error + entry list" where
  "pendingBreakAfters breakAfter cur =
     (let unexecuted = filter (\<lambda>(_, _, executed). \<not> executed) breakAfter
      in case cur of
           None \<Rightarrow> (if unexecuted = [] then Inr [] else Inl TypeError)
         | Some c \<Rightarrow>
             Inr (rev (filter (\<lambda>(uid, _, _). \<not> prefix (js_string uid) c) unexecuted)))"

text \<open>The closure pushed at line 154, run on the tree as it is when the closure is called.\<close>

definition break_after_fn :: "browser \<Rightarrow> real \<Rightarrow> label \<Rightarrow> node \<Rightarrow> node" where
  "break_after_fn b pxPageHeight el doc =
     (let pad = createElement_div
                  (fill_height pxPageHeight (rect_bottom (getBoundingClientRect b doc el)))
      in insertAfter pad el doc)"

text \<open>Lines 144 to 147: each pending closure is called in turn.\<close>

definition run_pending :: "browser \<Rightarrow> real \<Rightarrow> entry list \<Rightarrow> node \<Rightarrow> node" where
  "run_pending b pxPageHeight pend doc =
     foldl (\<lambda>d (_, el, _). break_after_fn b pxPageHeight el d) doc pend"

text \<open>\<^verbatim>\<open>arr[2] = true\<close> reaches the entry of \<^verbatim>\<open>breakAfter\<close> through the reference in the
  list just returned; an element is queued at most once, so its entry is told apart by
  its value.\<close>

definition mark_executed :: "entry list \<Rightarrow> entry list \<Rightarrow> entry list" where
  "mark_executed pend breakAfter =
     map (\<lambda>(uid, el, executed). if (uid, el, executed) \<in> set pend then (uid, el, True)
                                 else (uid, el, executed)) breakAfter"

subsection \<open>One visit of the loop (lines 113 to 192)\<close>

record ctx =
  ctx_browser :: browser
  ctx_pxPageHeight :: real
  ctx_mode :: mode
  ctx_select :: select
  ctx_legacyEls :: "label list"

type_synonym state = "node \<times> entry list"

definition pagebreak_loop :: "ctx \<Rightarrow> state \<Rightarrow> label \<Rightarrow> error + state" where
  "pagebreak_loop c s el =
     (case s of (doc, breakAfter) \<Rightarrow>
        let uid = getAttribute_uid doc el;
            rules2 = resolve_rules (ctx_mode c) (ctx_legacyEls c) (ctx_select c)
                       (getComputedStyle (ctx_browser c) doc el) el
        in case pendingBreakAfters breakAfter uid of
             Inl e \<Rightarrow> Inl e
           | Inr pend \<Rightarrow>
               let doc1 = run_pending (ctx_browser c) (ctx_pxPageHeight c) pend doc;
                   breakAfter1 = mark_executed pend breakAfter;
                   breakAfter2 = (if rules_after rules2 then breakAfter1 @ [(uid, el, False)]
                                  else breakAfter1);
                   clientRect = getBoundingClientRect (ctx_browser c) doc1 el;
                   rules3 = avoid_rule (ctx_pxPageHeight c) clientRect rules2;
                   doc2 = (if rules_before rules3
                           then insertBefore
                                  (createElement_div
                                     (fill_height (ctx_pxPageHeight c) (rect_top clientRect)))
                                  el doc1
                           else doc1)
               in Inr (doc2, breakAfter2))"

text \<open>\<^verbatim>\<open>Array.prototype.forEach.call(els, pagebreak_loop)\<close>; an exception ends the walk.\<close>

fun forEach :: "('s \<Rightarrow> 'a \<Rightarrow> error + 's) \<Rightarrow> 's \<Rightarrow> 'a list \<Rightarrow> error + 's" where
  "forEach f s [] = Inr s"
| "forEach f s (x # xs) = (case f s x of Inl e \<Rightarrow> Inl e | Inr s' \<Rightarrow> forEach f s' xs)"

subsection \<open>toContainer (lines 65 to 194)\<close>

text \<open>\<^verbatim>\<open>select[key].join(', ')\<close>.\<close>

definition join :: "string list \<Rightarrow> string" where
  "join xs = (case xs of [] \<Rightarrow> [] | x # ys \<Rightarrow> x @ concat (map (\<lambda>y. '', '' @ y) ys))"

text \<open>Lines 82 to 89 for one key: \<open>all\<close> is \<^verbatim>\<open>mode.avoidAll && key === 'avoid'\<close>, and an
  empty list of selectors is not queried.\<close>

definition select_key :: "browser \<Rightarrow> node \<Rightarrow> bool \<Rightarrow> string list \<Rightarrow> error + label list" where
  "select_key b rootEl all requested =
     (let sels = (if all then [] else requested)
      in if sels \<noteq> [] then
           (case querySelectorAll b rootEl (join sels) of
              None \<Rightarrow> Inl SyntaxError
            | Some found \<Rightarrow> Inr found)
         else Inr [])"

text \<open>Lines 67 to 93: the page height, the modes, the elements selected for each key in
  the order \<open>before\<close>, \<open>after\<close>, \<open>avoid\<close>, and the legacy elements.\<close>

definition setup_ctx :: "browser \<Rightarrow> real \<Rightarrow> pagebreak \<Rightarrow> node \<Rightarrow> error + ctx" where
  "setup_ctx b pxPageHeight opt rootEl =
     (let m = \<lparr>avoidAll = ''avoid-all'' \<in> set (opt_mode opt),
               css = ''css'' \<in> set (opt_mode opt),
               legacy = ''legacy'' \<in> set (opt_mode opt)\<rparr>
      in case select_key b rootEl False (opt_before opt) of Inl e \<Rightarrow> Inl e | Inr sb \<Rightarrow>
         case select_key b rootEl False (opt_after opt) of Inl e \<Rightarrow> Inl e | Inr sa \<Rightarrow>
         case select_key b rootEl (avoidAll m) (opt_avoid opt) of Inl e \<Rightarrow> Inl e | Inr sv \<Rightarrow>
         case querySelectorAll b rootEl ''.html2pdf__page-break'' of
           None \<Rightarrow> Inl SyntaxError
         | Some leg \<Rightarrow>
             Inr \<lparr>ctx_browser = b, ctx_pxPageHeight = pxPageHeight, ctx_mode = m,
                  ctx_select = \<lparr>select_before = sb, select_after = sa, select_avoid = sv\<rparr>,
                  ctx_legacyEls = leg\<rparr>)"

text \<open>The walk proper: tag the tree, take the static list of elements, visit each.\<close>

definition pagebreak_walk :: "ctx \<Rightarrow> node \<Rightarrow> error + state" where
  "pagebreak_walk c rootEl =
     (let tagged = addUIDRecursive rootEl ''0'';
          els = querySelectorAll_star tagged
      in forEach (pagebreak_loop c) (tagged, []) els)"

definition toContainer :: "browser \<Rightarrow> real \<Rightarrow> pagebreak \<Rightarrow> node \<Rightarrow> error + node" where
  "toContainer b pxPageHeight opt rootEl =
     (case setup_ctx b pxPageHeight opt rootEl of
        Inl e \<Rightarrow> Inl e
      | Inr c \<Rightarrow> map_sum id fst (pagebreak_walk c rootEl))"


subsection \<open>Notions used to state the properties\<close>

fun is_pad :: "label \<Rightarrow> bool" where
  "is_pad (Pad h) = True"
| "is_pad (El n) = False"

text \<open>A container as the plugin receives it holds document elements only.\<close>

definition pad_free :: "node \<Rightarrow> bool" where
  "pad_free t = (\<forall>l \<in> set (labels t). \<not> is_pad l)"

text \<open>The document elements of a tree in document order; references are unique.\<close>

definition elements :: "node \<Rightarrow> label list" where
  "elements t = filter (\<lambda>l. \<not> is_pad l) (labels t)"

text \<open>The heights of the padding \<^verbatim>\<open>div\<close>s of a tree in document order.\<close>

definition pad_heights :: "node \<Rightarrow> height list" where
  "pad_heights t = concat (map (\<lambda>l. case l of Pad h \<Rightarrow> [h] | El n \<Rightarrow> []) (labels t))"

text \<open>The tree without its padding \<^verbatim>\<open>div\<close>s, and the tree without its \<^verbatim>\<open>uid\<close> attributes.\<close>

fun strip_pads :: "node \<Rightarrow> node" where
  "strip_pads (Node a u ks) =
     Node a u (map strip_pads (filter (\<lambda>k. \<not> is_pad (label k)) ks))"

fun clear_uid :: "node \<Rightarrow> node" where
  "clear_uid (Node a u ks) = Node a None (map clear_uid ks)"

text \<open>Every node of the tree carries a \<^verbatim>\<open>uid\<close> attribute.\<close>

fun all_tagged :: "node \<Rightarrow> bool" where
  "all_tagged (Node a u ks) = (u \<noteq> None \<and> list_all all_tagged ks)"

text \<open>A padding \<^verbatim>\<open>div\<close> fits a page: its height is a number \<open>h\<close> with
  \<open>0 < h \<le> pxPageHeight\<close>.\<close>

definition spacer_ok :: "real \<Rightarrow> height \<Rightarrow> bool" where
  "spacer_ok pxPageHeight h = (case h of Px x \<Rightarrow> 0 < x \<and> x \<le> pxPageHeight | NaNpx \<Rightarrow> False)"

text \<open>The entries of \<^verbatim>\<open>breakAfter\<close> whose closure has not been called.\<close>

definition unexecuted :: "entry list \<Rightarrow> entry list" where
  "unexecuted breakAfter = filter (\<lambda>(uid, el, executed). \<not> executed) breakAfter"



text \<open>What holds of the tree and the queue after \<open>n\<close> visits of a pass over \<open>rootEl\<close>.\<close>

definition walk_inv :: "node \<Rightarrow> nat \<Rightarrow> state \<Rightarrow> bool" where
  "walk_inv rootEl n s =
     (elements (fst s) = labels rootEl
      \<and> label (fst s) = label rootEl
      \<and> (\<forall>l \<in> set (querySelectorAll_star rootEl). getAttribute_uid (fst s) l \<noteq> None)
      \<and> (\<forall>e \<in> set (snd s). \<not> is_pad (fst (snd e)))
      \<and> length (pad_heights (fst s)) + length (unexecuted (snd s)) \<le> 2 * n)"


text \<open>All nodes of a tree in document order, and trees in which no node has more than ten
  children.\<close>

fun subtrees :: "node \<Rightarrow> node list" where
  "subtrees (Node a u ks) = Node a u ks # concat (map subtrees ks)"

fun narrow :: "node \<Rightarrow> bool" where
  "narrow (Node a u ks) = (length ks \<le> 10 \<and> list_all narrow ks)"


subsection \<open>Concrete containers and browsers\<close>

text \<open>The scenarios the properties below are run on. Every browser answers every selector
  query; the page is 1000px high throughout.\<close>

definition plain_style :: style where
  "plain_style = \<lparr>style_breakBefore = [], style_pageBreakBefore = [], style_breakAfter = [],
     style_pageBreakAfter = [], style_breakInside = [], style_pageBreakInside = []\<rparr>"

definition only_mode :: "string \<Rightarrow> pagebreak" where
  "only_mode m = \<lparr>opt_mode = [m], opt_before = [], opt_after = [], opt_avoid = []\<rparr>"

text \<open>Element 1 has \<^verbatim>\<open>page-break-after: always\<close>; every element ends at 300px.\<close>

definition css_after_browser :: browser where
  "css_after_browser =
     \<lparr>getComputedStyle =
        (\<lambda>doc l. if l = El 1 then plain_style\<lparr>style_pageBreakAfter := ''always''\<rparr>
                  else plain_style),
      getBoundingClientRect = (\<lambda>doc l. \<lparr>rect_top = 0, rect_bottom = 300\<rparr>),
      querySelectorAll = (\<lambda>doc sel. Some [])\<rparr>"

text \<open>Every element spans 900px to 1300px, across the first page boundary.\<close>

definition straddling_browser :: browser where
  "straddling_browser =
     \<lparr>getComputedStyle = (\<lambda>doc l. plain_style),
      getBoundingClientRect = (\<lambda>doc l. \<lparr>rect_top = 900, rect_bottom = 1300\<rparr>),
      querySelectorAll = (\<lambda>doc sel. Some [])\<rparr>"

text \<open>Every element starts 100px above the viewport: \<^verbatim>\<open>getBoundingClientRect\<close> is relative
  to the viewport, and the plugin does not subtract the container's top.\<close>

definition scrolled_browser :: browser where
  "scrolled_browser =
     \<lparr>getComputedStyle = (\<lambda>doc l. plain_style),
      getBoundingClientRect = (\<lambda>doc l. \<lparr>rect_top = - 100, rect_bottom = 300\<rparr>),
      querySelectorAll = (\<lambda>doc sel. Some [])\<rparr>"

text \<open>Element 1 has \<^verbatim>\<open>break-before: page\<close> and starts at 2000px, on a page boundary.\<close>

definition aligned_browser :: browser where
  "aligned_browser =
     \<lparr>getComputedStyle =
        (\<lambda>doc l. if l = El 1 then plain_style\<lparr>style_breakBefore := ''page''\<rparr>
                  else plain_style),
      getBoundingClientRect = (\<lambda>doc l. \<lparr>rect_top = 2000, rect_bottom = 2300\<rparr>),
      querySelectorAll = (\<lambda>doc sel. Some [])\<rparr>"

text \<open>Elements 1 and 2 carry the class \<^verbatim>\<open>html2pdf__page-break\<close>. The bottom of every element
  grows by 100px with each padding \<^verbatim>\<open>div\<close> in the tree, so a height tells how many
  had been inserted when it was computed.\<close>

definition legacy_browser :: browser where
  "legacy_browser =
     \<lparr>getComputedStyle = (\<lambda>doc l. plain_style),
      getBoundingClientRect =
        (\<lambda>doc l. \<lparr>rect_top = 0, rect_bottom = 100 * (1 + real (length (pad_heights doc)))\<rparr>),
      querySelectorAll =
        (\<lambda>doc sel. if sel = ''.html2pdf__page-break'' then Some [El 1, El 2] else Some [])\<rparr>"

definition one_child :: node where
  "one_child = Node (El 0) None [Node (El 1) None []]"

definition nested_last :: node where
  "nested_last = Node (El 0) None [Node (El 1) None [Node (El 2) None []]]"

definition nested_then_sibling :: node where
  "nested_then_sibling =
     Node (El 0) None [Node (El 1) None [Node (El 2) None []], Node (El 3) None []]"

definition eleven_children :: node where
  "eleven_children =
     Node (El 0) None
       [Node (El 1) None [], Node (El 2) None [Node (El 12) None []], Node (El 3) None [],
        Node (El 4) None [], Node (El 5) None [], Node (El 6) None [], Node (El 7) None [],
        Node (El 8) None [], Node (El 9) None [], Node (El 10) None [], Node (El 11) None []]"

text \<open>The context \<open>setup_ctx\<close> builds when no selector is given.\<close>

definition mk_ctx :: "browser \<Rightarrow> bool \<Rightarrow> bool \<Rightarrow> bool \<Rightarrow> label list \<Rightarrow> ctx" where
  "mk_ctx b a c l leg =
     \<lparr>ctx_browser = b, ctx_pxPageHeight = 1000,
      ctx_mode = \<lparr>avoidAll = a, css = c, legacy = l\<rparr>,
      ctx_select = \<lparr>select_before = [], select_after = [], select_avoid = []\<rparr>,
      ctx_legacyEls = leg\<rparr>"

definition css_mode :: mode where
  "css_mode = \<lparr>avoidAll = False, css = True, legacy = False\<rparr>"

definition css_legacy_mode :: mode where
  "css_legacy_mode = \<lparr>avoidAll = False, css = True, legacy = True\<rparr>"

definition no_select :: select where
  "no_select = \<lparr>select_before = [], select_after = [], select_avoid = []\<rparr>"

definition page_before_style :: style where
  "page_before_style = plain_style\<lparr>style_breakBefore := ''page''\<rparr>"


definition nested_queue :: "entry list" where
  "nested_queue = [(Some ''00'', El 1, False), (Some ''000'', El 2, False)]"


section \<open>The DOM operations\<close>

subsection \<open>Insertion and tagging, node by node\<close>

lemma label_insertBefore [simp]: "label (insertBefore p l t) = label t"
  by (cases t) simp

lemma label_insertAfter [simp]: "label (insertAfter p l t) = label t"
  by (cases t) simp

lemma attr_uid_insertBefore [simp]: "attr_uid (insertBefore p l t) = attr_uid t"
  by (cases t) simp

lemma attr_uid_insertAfter [simp]: "attr_uid (insertAfter p l t) = attr_uid t"
  by (cases t) simp

lemma strip_pads_insertBefore:
  "is_pad (label p) \<Longrightarrow> strip_pads (insertBefore p l t) = strip_pads t"
proof (induction t)
  case (Node a u ks)
  have "map strip_pads (filter (\<lambda>k. \<not> is_pad (label k))
          (concat (map (\<lambda>k. if label k = l then [p, k] else [insertBefore p l k]) ks)))
        = map strip_pads (filter (\<lambda>k. \<not> is_pad (label k)) ks)"
    using Node by (induction ks) auto
  then show ?case by simp
qed

lemma strip_pads_insertAfter:
  "is_pad (label p) \<Longrightarrow> strip_pads (insertAfter p l t) = strip_pads t"
proof (induction t)
  case (Node a u ks)
  have "map strip_pads (filter (\<lambda>k. \<not> is_pad (label k))
          (concat (map (\<lambda>k. if label k = l then [k, p] else [insertAfter p l k]) ks)))
        = map strip_pads (filter (\<lambda>k. \<not> is_pad (label k)) ks)"
    using Node by (induction ks) auto
  then show ?case by simp
qed

lemma labels_set_insertBefore:
  "set (labels (insertBefore p l t)) \<subseteq> set (labels p) \<union> set (labels t)"
proof (induction t)
  case (Node a u ks)
  have "set (concat (map labels
          (concat (map (\<lambda>k. if label k = l then [p, k] else [insertBefore p l k]) ks))))
        \<subseteq> set (labels p) \<union> set (concat (map labels ks))"
    using Node by (induction ks) auto
  then show ?case by auto
qed

lemma labels_set_insertAfter:
  "set (labels (insertAfter p l t)) \<subseteq> set (labels p) \<union> set (labels t)"
proof (induction t)
  case (Node a u ks)
  have "set (concat (map labels
          (concat (map (\<lambda>k. if label k = l then [k, p] else [insertAfter p l k]) ks))))
        \<subseteq> set (labels p) \<union> set (concat (map labels ks))"
    using Node by (induction ks) auto
  then show ?case by auto
qed

lemma strip_pads_pad_free: "pad_free t \<Longrightarrow> strip_pads t = t"
proof (induction t)
  case (Node a u ks)
  have "k \<in> set ks \<Longrightarrow> pad_free k \<and> \<not> is_pad (label k)" for k
    using Node.prems by (cases k) (auto simp: pad_free_def)
  then have "map strip_pads (filter (\<lambda>k. \<not> is_pad (label k)) ks) = ks"
    using Node.IH by (induction ks) auto
  then show ?case by simp
qed


lemma find_node_createElement_div [simp]:
  "find_node l (createElement_div h) = (if l = Pad h then Some (createElement_div h) else None)"
  by (simp add: createElement_div_def)

lemma uid_find_node_insertBefore:
  assumes "find_node l p = None"
  shows "map_option attr_uid (find_node l (insertBefore p l' t)) = map_option attr_uid (find_node l t)"
proof (induction t)
  case (Node a u ks)
  have "map_option attr_uid (first_some (map (find_node l)
          (concat (map (\<lambda>k. if label k = l' then [p, k] else [insertBefore p l' k]) ks))))
        = map_option attr_uid (first_some (map (find_node l) ks))"
    using Node
  proof (induction ks)
    case Nil
    then show ?case by simp
  next
    case (Cons k ks)
    then have IH: "map_option attr_uid (first_some (map (find_node l)
          (concat (map (\<lambda>k. if label k = l' then [p, k] else [insertBefore p l' k]) ks))))
        = map_option attr_uid (first_some (map (find_node l) ks))"
      and K: "map_option attr_uid (find_node l (insertBefore p l' k)) = map_option attr_uid (find_node l k)"
      by auto
    show ?case
    proof (cases "label k = l'")
      case True
      then show ?thesis using IH assms by (cases "find_node l k") auto
    next
      case False
      then show ?thesis using IH K
        by (cases "find_node l k"; cases "find_node l (insertBefore p l' k)") auto
    qed
  qed
  then show ?case by simp
qed

lemma uid_find_node_insertAfter:
  assumes "find_node l p = None"
  shows "map_option attr_uid (find_node l (insertAfter p l' t)) = map_option attr_uid (find_node l t)"
proof (induction t)
  case (Node a u ks)
  have "map_option attr_uid (first_some (map (find_node l)
          (concat (map (\<lambda>k. if label k = l' then [k, p] else [insertAfter p l' k]) ks))))
        = map_option attr_uid (first_some (map (find_node l) ks))"
    using Node
  proof (induction ks)
    case Nil
    then show ?case by simp
  next
    case (Cons k ks)
    then have IH: "map_option attr_uid (first_some (map (find_node l)
          (concat (map (\<lambda>k. if label k = l' then [k, p] else [insertAfter p l' k]) ks))))
        = map_option attr_uid (first_some (map (find_node l) ks))"
      and K: "map_option attr_uid (find_node l (insertAfter p l' k)) = map_option attr_uid (find_node l k)"
      by auto
    show ?case
    proof (cases "label k = l'")
      case True
      then show ?thesis using IH assms by (cases "find_node l k") auto
    next
      case False
      then show ?thesis using IH K
        by (cases "find_node l k"; cases "find_node l (insertAfter p l' k)") auto
    qed
  qed
  then show ?case by simp
qed

lemma getAttribute_uid_insertBefore:
  assumes "\<not> is_pad l"
  shows "getAttribute_uid (insertBefore (createElement_div h) l' doc) l = getAttribute_uid doc l"
proof -
  have "find_node l (createElement_div h) = None"
    using assms by (cases l) auto
  from uid_find_node_insertBefore [OF this, of l' doc] show ?thesis
    by (cases "find_node l doc"; cases "find_node l (insertBefore (createElement_div h) l' doc)")
       (auto simp: getAttribute_uid_def)
qed

lemma getAttribute_uid_insertAfter:
  assumes "\<not> is_pad l"
  shows "getAttribute_uid (insertAfter (createElement_div h) l' doc) l = getAttribute_uid doc l"
proof -
  have "find_node l (createElement_div h) = None"
    using assms by (cases l) auto
  from uid_find_node_insertAfter [OF this, of l' doc] show ?thesis
    by (cases "find_node l doc"; cases "find_node l (insertAfter (createElement_div h) l' doc)")
       (auto simp: getAttribute_uid_def)
qed

lemma map_zip_index:
  assumes "\<And>i k. k \<in> set ks \<Longrightarrow> g (f i k) = h k"
  shows "map (\<lambda>(i, k). g (f i k)) (zip [0 ..< length ks] ks) = map h ks"
  using assms by (intro nth_equalityI) auto

lemma labels_addUIDRecursive [simp]: "labels (addUIDRecursive t uid) = labels t"
proof (induction t arbitrary: uid)
  case (Node a u ks)
  have "map (\<lambda>(i, k). labels (addUIDRecursive k (uid @ decimal i))) (zip [0 ..< length ks] ks)
        = map labels ks"
    using Node by (intro map_zip_index) auto
  then show ?case by (simp add: comp_def case_prod_unfold)
qed

lemma clear_uid_addUIDRecursive [simp]: "clear_uid (addUIDRecursive t uid) = clear_uid t"
proof (induction t arbitrary: uid)
  case (Node a u ks)
  have "map (\<lambda>(i, k). clear_uid (addUIDRecursive k (uid @ decimal i))) (zip [0 ..< length ks] ks)
        = map clear_uid ks"
    using Node by (intro map_zip_index) auto
  then show ?case by (simp add: comp_def case_prod_unfold)
qed

lemma all_tagged_addUIDRecursive [simp]: "all_tagged (addUIDRecursive t uid)"
proof (induction t arbitrary: uid)
  case (Node a u ks)
  then show ?case by (auto simp: list_all_iff dest!: set_zip_rightD)
qed

lemma first_some_eq_Some: "first_some xs = Some y \<Longrightarrow> Some y \<in> set xs"
  by (induction xs rule: first_some.induct) auto

lemma first_some_eq_None: "first_some xs = None \<longleftrightarrow> (\<forall>x \<in> set xs. x = None)"
  by (induction xs rule: first_some.induct) auto

lemma find_node_tagged: "all_tagged t \<Longrightarrow> find_node l t = Some n \<Longrightarrow> attr_uid n \<noteq> None"
proof (induction t)
  case (Node a u ks)
  show ?case
  proof (cases "a = l")
    case True
    then show ?thesis using Node.prems by auto
  next
    case False
    then have "Some n \<in> set (map (find_node l) ks)"
      using Node.prems by (auto dest: first_some_eq_Some)
    then obtain k where "k \<in> set ks" "find_node l k = Some n" by auto
    then show ?thesis using Node by (auto simp: list_all_iff)
  qed
qed

subsection \<open>Tagged trees answer getAttribute; deferred closures\<close>

lemma find_node_labels: "l \<in> set (labels t) \<Longrightarrow> find_node l t \<noteq> None"
proof (induction t)
  case (Node a u ks)
  show ?case
  proof (cases "a = l")
    case True
    then show ?thesis by simp
  next
    case False
    then have "l \<in> set (concat (map labels ks))"
      using Node.prems by simp
    then obtain k where k: "k \<in> set ks" "l \<in> set (labels k)"
      by auto
    have "find_node l k \<noteq> None"
      using Node.IH [OF k] .
    then obtain n where "find_node l k = Some n" by blast
    then have "Some n \<in> set (map (find_node l) ks)"
      using k(1) by force
    then have "first_some (map (find_node l) ks) \<noteq> None"
      using first_some_eq_None [of "map (find_node l) ks"] by blast
    then show ?thesis using False by simp
  qed
qed


lemma getAttribute_uid_tagged:
  "all_tagged t \<Longrightarrow> l \<in> set (labels t) \<Longrightarrow> getAttribute_uid t l \<noteq> None"
  using find_node_tagged [of t l] find_node_labels [of l t]
  by (auto simp: getAttribute_uid_def split: option.splits)

lemma label_createElement_div [simp]: "label (createElement_div h) = Pad h"
  by (simp add: createElement_div_def)

lemma labels_createElement_div [simp]: "labels (createElement_div h) = [Pad h]"
  by (simp add: createElement_div_def)

lemma strip_pads_break_after_fn [simp]:
  "strip_pads (break_after_fn b H el doc) = strip_pads doc"
  by (simp add: break_after_fn_def Let_def strip_pads_insertAfter)

lemma getAttribute_uid_break_after_fn:
  "\<not> is_pad l \<Longrightarrow> getAttribute_uid (break_after_fn b H el doc) l = getAttribute_uid doc l"
  by (simp add: break_after_fn_def Let_def getAttribute_uid_insertAfter)

lemma labels_break_after_fn:
  "set (labels (break_after_fn b H el doc))
     \<subseteq> insert (Pad (fill_height H (rect_bottom (getBoundingClientRect b doc el)))) (set (labels doc))"
  using labels_set_insertAfter
    [of "createElement_div (fill_height H (rect_bottom (getBoundingClientRect b doc el)))" el doc]
  by (simp add: break_after_fn_def Let_def)

lemma run_pending_Nil [simp]: "run_pending b H [] doc = doc"
  by (simp add: run_pending_def)

lemma run_pending_Cons [simp]:
  "run_pending b H ((uid, el, ex) # pend) doc = run_pending b H pend (break_after_fn b H el doc)"
  by (simp add: run_pending_def)

lemma strip_pads_run_pending [simp]: "strip_pads (run_pending b H pend doc) = strip_pads doc"
  by (induction pend arbitrary: doc) auto

lemma getAttribute_uid_run_pending:
  "\<not> is_pad l \<Longrightarrow> getAttribute_uid (run_pending b H pend doc) l = getAttribute_uid doc l"
  by (induction pend arbitrary: doc) (auto simp: getAttribute_uid_break_after_fn)

subsection \<open>One visit\<close>

lemma pagebreak_loop_result:
  assumes "getAttribute_uid doc el = Some u"
  shows "\<exists>pend doc1 doc2 ba2.
           pendingBreakAfters ba (Some u) = Inr pend
         \<and> doc1 = run_pending (ctx_browser c) (ctx_pxPageHeight c) pend doc
         \<and> (doc2 = doc1 \<or>
            doc2 = insertBefore (createElement_div (fill_height (ctx_pxPageHeight c)
                     (rect_top (getBoundingClientRect (ctx_browser c) doc1 el)))) el doc1)
         \<and> (ba2 = mark_executed pend ba \<or> ba2 = mark_executed pend ba @ [(Some u, el, False)])
         \<and> pagebreak_loop c (doc, ba) el = Inr (doc2, ba2)"
  using assms by (simp add: pagebreak_loop_def pendingBreakAfters_def Let_def)

subsection \<open>Invariants of the walk\<close>

lemma forEach_invariant:
  assumes "I s"
    and "\<And>s x. I s \<Longrightarrow> x \<in> set xs \<Longrightarrow> \<exists>s'. f s x = Inr s' \<and> I s'"
  shows "\<exists>s'. forEach f s xs = Inr s' \<and> I s'"
  using assms
proof (induction xs arbitrary: s)
  case Nil
  then show ?case by simp
next
  case (Cons x xs)
  from Cons.prems obtain s1 where s1: "f s x = Inr s1" "I s1"
    by (meson list.set_intros(1))
  have "\<exists>s'. forEach f s1 xs = Inr s' \<and> I s'"
    using Cons.IH [OF s1(2)] Cons.prems(2) by (meson list.set_intros(2))
  then show ?case using s1 by simp
qed

lemma run_pending_invariant:
  assumes "P doc"
    and "\<And>d el. P d \<Longrightarrow> P (break_after_fn b H el d)"
  shows "P (run_pending b H pend doc)"
  using assms by (induction pend arbitrary: doc) auto

lemma pagebreak_loop_invariant:
  assumes uid: "getAttribute_uid doc el \<noteq> None"
    and P: "P doc"
    and after: "\<And>d l. P d \<Longrightarrow> P (break_after_fn (ctx_browser c) (ctx_pxPageHeight c) l d)"
    and before: "\<And>d l. P d \<Longrightarrow>
        P (insertBefore (createElement_div (fill_height (ctx_pxPageHeight c)
             (rect_top (getBoundingClientRect (ctx_browser c) d l)))) l d)"
  shows "\<exists>doc' ba'. pagebreak_loop c (doc, ba) el = Inr (doc', ba') \<and> P doc'
           \<and> strip_pads doc' = strip_pads doc
           \<and> (\<forall>l. \<not> is_pad l \<longrightarrow> getAttribute_uid doc' l = getAttribute_uid doc l)"
proof -
  from uid obtain u where u: "getAttribute_uid doc el = Some u" by blast
  from pagebreak_loop_result [OF u, of ba c] obtain pend doc1 doc2 ba2 where
    pend: "pendingBreakAfters ba (Some u) = Inr pend"
    and doc1: "doc1 = run_pending (ctx_browser c) (ctx_pxPageHeight c) pend doc"
    and doc2: "doc2 = doc1 \<or>
            doc2 = insertBefore (createElement_div (fill_height (ctx_pxPageHeight c)
                     (rect_top (getBoundingClientRect (ctx_browser c) doc1 el)))) el doc1"
    and res: "pagebreak_loop c (doc, ba) el = Inr (doc2, ba2)"
    by blast
  have P1: "P doc1"
    unfolding doc1 using P after by (rule run_pending_invariant)
  have P2: "P doc2"
    using doc2 P1 before by auto
  have S1: "strip_pads doc1 = strip_pads doc"
    by (simp add: doc1)
  have S2: "strip_pads doc2 = strip_pads doc"
    using doc2 S1 by (auto simp: strip_pads_insertBefore)
  have U1: "\<not> is_pad l \<Longrightarrow> getAttribute_uid doc1 l = getAttribute_uid doc l" for l
    by (simp add: doc1 getAttribute_uid_run_pending)
  have U2: "\<not> is_pad l \<Longrightarrow> getAttribute_uid doc2 l = getAttribute_uid doc l" for l
    using doc2 U1 [of l] by (auto simp: getAttribute_uid_insertBefore)
  show ?thesis using res P2 S2 U2 by blast
qed

lemma pad_free_querySelectorAll_star:
  "pad_free t \<Longrightarrow> l \<in> set (querySelectorAll_star t) \<Longrightarrow> \<not> is_pad l \<and> l \<in> set (labels t)"
  by (cases t) (auto simp: pad_free_def querySelectorAll_star_def)

lemma querySelectorAll_star_addUIDRecursive [simp]:
  "querySelectorAll_star (addUIDRecursive t uid) = querySelectorAll_star t"
  using labels_addUIDRecursive [of t uid] by (cases t) (simp add: querySelectorAll_star_def)

lemma pad_free_addUIDRecursive [simp]: "pad_free (addUIDRecursive t uid) = pad_free t"
  by (simp add: pad_free_def)

lemma pagebreak_walk_invariant:
  assumes pf: "pad_free rootEl"
    and P: "P (addUIDRecursive rootEl ''0'')"
    and after: "\<And>d l. P d \<Longrightarrow> P (break_after_fn (ctx_browser c) (ctx_pxPageHeight c) l d)"
    and before: "\<And>d l. P d \<Longrightarrow>
        P (insertBefore (createElement_div (fill_height (ctx_pxPageHeight c)
             (rect_top (getBoundingClientRect (ctx_browser c) d l)))) l d)"
  shows "\<exists>doc ba. pagebreak_walk c rootEl = Inr (doc, ba) \<and> P doc
           \<and> strip_pads doc = addUIDRecursive rootEl ''0''"
proof -
  let ?tagged = "addUIDRecursive rootEl ''0''"
  let ?els = "querySelectorAll_star ?tagged"
  let ?I = "\<lambda>s. P (fst s) \<and> strip_pads (fst s) = ?tagged
             \<and> (\<forall>l \<in> set ?els. getAttribute_uid (fst s) l \<noteq> None)"
  have els: "l \<in> set ?els \<Longrightarrow> \<not> is_pad l \<and> l \<in> set (labels ?tagged)" for l
    using pad_free_querySelectorAll_star [of ?tagged l] pf by simp
  have init: "?I (?tagged, [])"
    using P pf els by (auto simp: strip_pads_pad_free getAttribute_uid_tagged)
  have step: "\<exists>s'. pagebreak_loop c s x = Inr s' \<and> ?I s'" if "?I s" "x \<in> set ?els" for s x
  proof -
    obtain doc ba where s: "s = (doc, ba)" by (cases s)
    have "getAttribute_uid doc x \<noteq> None" "P doc" using that s by auto
    from pagebreak_loop_invariant [where P = P, OF this after before, of ba]
    obtain doc' ba' where "pagebreak_loop c (doc, ba) x = Inr (doc', ba')" "P doc'"
      "strip_pads doc' = strip_pads doc"
      "\<forall>l. \<not> is_pad l \<longrightarrow> getAttribute_uid doc' l = getAttribute_uid doc l"
      by blast
    then show ?thesis using that(1) s els by auto
  qed
  from forEach_invariant [where I = ?I and f = "pagebreak_loop c", OF init step]
  obtain s' where "forEach (pagebreak_loop c) (?tagged, []) ?els = Inr s'" "?I s'"
    by blast
  then show ?thesis
    by (cases s') (auto simp: pagebreak_walk_def Let_def)
qed

subsection \<open>The remainder and the fill height\<close>

lemma js_rem_nonneg:
  assumes "0 < b" "0 \<le> a"
  shows "0 \<le> js_rem a b" "js_rem a b < b"
proof -
  have t: "trunc (a / b) = \<lfloor>a / b\<rfloor>"
    using assms by (simp add: trunc_def)
  have "of_int \<lfloor>a / b\<rfloor> * b \<le> a"
    using assms(1) by (rule floor_divide_lower)
  then show "0 \<le> js_rem a b"
    by (simp add: js_rem_def t mult.commute)
  have "a < (of_int \<lfloor>a / b\<rfloor> + 1) * b"
    using assms(1) by (rule floor_divide_upper)
  then show "js_rem a b < b"
    by (simp add: js_rem_def t algebra_simps)
qed

lemma js_rem_multiple:
  assumes "b \<noteq> 0"
  shows "js_rem (of_int k * b) b = 0"
  using assms by (simp add: js_rem_def trunc_def)

lemma js_rem_neg:
  assumes "0 < b" "a < 0"
  shows "js_rem a b \<le> 0" "- b < js_rem a b"
proof -
  have "a / b < 0"
    using assms by (simp add: divide_neg_pos)
  then have t: "trunc (a / b) = \<lceil>a / b\<rceil>"
    by (simp add: trunc_def)
  have "a \<le> of_int \<lceil>a / b\<rceil> * b"
    using assms(1) by (rule ceiling_divide_upper)
  then show "js_rem a b \<le> 0"
    by (simp add: js_rem_def t mult.commute)
  have "(of_int \<lceil>a / b\<rceil> - 1) * b < a"
    using assms(1) by (rule ceiling_divide_lower)
  then show "- b < js_rem a b"
    by (simp add: js_rem_def t algebra_simps)
qed

lemma fill_height_bounds:
  assumes "0 < H" "0 \<le> y"
  shows "\<exists>x. fill_height H y = Px x \<and> 0 < x \<and> x \<le> H"
  using js_rem_nonneg [OF assms] assms(1) by (simp add: fill_height_def)

lemma fill_height_multiple:
  assumes "0 < H"
  shows "fill_height H (of_int k * H) = Px H"
  using assms by (simp add: fill_height_def js_rem_multiple)

lemma set_pad_heights: "set (pad_heights t) = {h. Pad h \<in> set (labels t)}"
  by (auto simp: pad_heights_def split: label.splits)

lemma pad_heights_pad_free: "pad_free t \<Longrightarrow> pad_heights t = []"
  by (auto simp: pad_heights_def pad_free_def split: label.splits)

lemma pad_heights_break_after_fn:
  "set (pad_heights (break_after_fn b H el doc))
     \<subseteq> insert (fill_height H (rect_bottom (getBoundingClientRect b doc el))) (set (pad_heights doc))"
  using labels_break_after_fn [of b H el doc] by (auto simp: set_pad_heights)

lemma pad_heights_insertBefore:
  "set (pad_heights (insertBefore (createElement_div h) el doc)) \<subseteq> insert h (set (pad_heights doc))"
  using labels_set_insertBefore [of "createElement_div h" el doc] by (auto simp: set_pad_heights)

subsection \<open>Where insertBefore puts the new node\<close>

lemma labels_insertBefore_step:
  "labels (insertBefore p l (Node a u ks)) =
     a # concat (map (\<lambda>k. if label k = l then labels p @ labels k
                          else labels (insertBefore p l k)) ks)"
proof -
  have "concat (map labels (concat (map (\<lambda>k. if label k = l then [p, k]
                                            else [insertBefore p l k]) ks)))
        = concat (map (\<lambda>k. if label k = l then labels p @ labels k
                          else labels (insertBefore p l k)) ks)"
    by (induction ks) auto
  then show ?thesis by simp
qed



subsection \<open>Siblings and document elements\<close>



lemma elements_insertAfter:
  assumes "elements p = []"
  shows "elements (insertAfter p l t) = elements t"
proof (induction t)
  case (Node a u ks)
  have p: "filter (\<lambda>l. \<not> is_pad l) (labels p) = []"
    using assms by (simp add: elements_def)
  have "filter (\<lambda>l. \<not> is_pad l) (concat (map labels
          (concat (map (\<lambda>k. if label k = l then [k, p] else [insertAfter p l k]) ks))))
        = filter (\<lambda>l. \<not> is_pad l) (concat (map labels ks))"
    using Node p by (induction ks) (auto simp: elements_def)
  then show ?case by (simp add: elements_def)
qed

lemma elements_insertBefore:
  assumes "elements p = []"
  shows "elements (insertBefore p l t) = elements t"
proof (induction t)
  case (Node a u ks)
  have p: "filter (\<lambda>l. \<not> is_pad l) (labels p) = []"
    using assms by (simp add: elements_def)
  have "filter (\<lambda>l. \<not> is_pad l) (concat (map labels
          (concat (map (\<lambda>k. if label k = l then [p, k] else [insertBefore p l k]) ks))))
        = filter (\<lambda>l. \<not> is_pad l) (concat (map labels ks))"
    using Node p by (induction ks) (auto simp: elements_def)
  then show ?case by (simp add: elements_def)
qed

lemma elements_createElement_div [simp]: "elements (createElement_div h) = []"
  by (simp add: elements_def)

lemma elements_break_after_fn [simp]: "elements (break_after_fn b H el doc) = elements doc"
  by (simp add: break_after_fn_def Let_def elements_insertAfter)

lemma elements_run_pending [simp]: "elements (run_pending b H pend doc) = elements doc"
  by (induction pend arbitrary: doc) auto

lemma label_break_after_fn [simp]: "label (break_after_fn b H el doc) = label doc"
  by (simp add: break_after_fn_def Let_def)

lemma label_run_pending [simp]: "label (run_pending b H pend doc) = label doc"
  by (induction pend arbitrary: doc) auto

lemma distinct_elements_count:
  "distinct (filter P xs) \<Longrightarrow> P l \<Longrightarrow> count_list xs l \<le> 1"
  by (induction xs) (auto simp: count_list_0_iff split: if_splits)


subsection \<open>The rules as disjunctions; pending closures in order\<close>

lemma resolve_rules_or:
  "resolve_rules m leg sel st el =
     \<lparr>rules_before = (css m \<and> js_or (style_breakBefore st) (style_pageBreakBefore st) \<in> set breakOpt
                       \<or> el \<in> set (select_before sel)),
      rules_after = (legacy m \<and> el \<in> set leg
                       \<or> css m \<and> js_or (style_breakAfter st) (style_pageBreakAfter st) \<in> set breakOpt
                       \<or> el \<in> set (select_after sel)),
      rules_avoid = (avoidAll m
                       \<or> css m \<and> js_or (style_breakInside st) (style_pageBreakInside st) \<in> set avoidOpt
                       \<or> el \<in> set (select_avoid sel))\<rparr>"
  by (auto simp: resolve_rules_def Let_def)



subsection \<open>Counting padding and unexecuted entries\<close>

lemma forEach_invariant_count:
  assumes "I 0 s"
    and "\<And>n s x. I n s \<Longrightarrow> x \<in> set xs \<Longrightarrow> \<exists>s'. f s x = Inr s' \<and> I (Suc n) s'"
  shows "\<exists>s'. forEach f s xs = Inr s' \<and> I (length xs) s'"
  using assms
proof (induction xs arbitrary: s I)
  case Nil
  then show ?case by simp
next
  case (Cons x xs)
  from Cons.prems obtain s1 where s1: "f s x = Inr s1" "I (Suc 0) s1"
    by (meson list.set_intros(1))
  have "\<exists>s'. forEach f s1 xs = Inr s' \<and> I (Suc (length xs)) s'"
  proof (rule Cons.IH [where I = "\<lambda>n. I (Suc n)"])
    show "I (Suc 0) s1" by (rule s1)
    show "\<exists>s'. f s y = Inr s' \<and> I (Suc (Suc n)) s'" if "I (Suc n) s" "y \<in> set xs" for n s y
      using Cons.prems(2) [of "Suc n" s y] that by simp
  qed
  then show ?case using s1 by simp
qed

lemma pending_eq:
  "pendingBreakAfters ba (Some cur)
     = Inr (rev (filter (\<lambda>(uid, el, ex). \<not> ex \<and> \<not> prefix (js_string uid) cur) ba))"
proof -
  have "filter (\<lambda>(uid, _, _). \<not> prefix (js_string uid) cur)
          (filter (\<lambda>(_, _, executed). \<not> executed) ba)
        = filter (\<lambda>(uid, el, ex). \<not> ex \<and> \<not> prefix (js_string uid) cur) ba"
    by (induction ba) auto
  then show ?thesis by (simp add: pendingBreakAfters_def Let_def)
qed

lemma unexecuted_mark_executed:
  assumes "pendingBreakAfters ba (Some cur) = Inr pend"
  shows "length (unexecuted (mark_executed pend ba)) + length pend = length (unexecuted ba)"
proof -
  let ?due = "\<lambda>(uid, el, ex). \<not> ex \<and> \<not> prefix (js_string uid) cur"
  have pend: "pend = rev (filter ?due ba)"
    using assms by (simp add: pending_eq)
  have mem: "e \<in> set pend \<longleftrightarrow> e \<in> set ba \<and> ?due e" for e
    by (simp add: pend)
  have "length (unexecuted (mark_executed pend xs)) + length (filter ?due xs)
        = length (unexecuted xs)" if "set xs \<subseteq> set ba" for xs
    using that
  proof (induction xs)
    case Nil
    then show ?case by (simp add: unexecuted_def mark_executed_def)
  next
    case (Cons x xs)
    obtain uid el ex where x: "x = (uid, el, ex)" by (cases x)
    have "x \<in> set pend \<longleftrightarrow> ?due x" using Cons.prems mem by simp
    then show ?case using Cons x
      by (auto simp: unexecuted_def mark_executed_def)
  qed
  from this [of ba] show ?thesis by (simp add: pend)
qed

lemma length_pad_heights: "length (pad_heights t) = length (filter is_pad (labels t))"
proof -
  have "length (concat (map (\<lambda>l. case l of Pad h \<Rightarrow> [h] | El n \<Rightarrow> []) xs))
        = length (filter is_pad xs)" for xs
    by (induction xs) (auto split: label.splits)
  then show ?thesis by (simp add: pad_heights_def)
qed

lemma pad_count_children:
  assumes "\<And>k. k \<in> set ks \<Longrightarrow>
             length (filter is_pad (g k)) \<le> length (filter is_pad (labels k)) + count_list (labels k) l"
  shows "length (filter is_pad (concat (map g ks)))
           \<le> length (filter is_pad (concat (map labels ks))) + count_list (concat (map labels ks)) l"
  using assms
proof (induction ks)
  case Nil
  then show ?case by simp
next
  case (Cons k ks)
  have "length (filter is_pad (g k)) \<le> length (filter is_pad (labels k)) + count_list (labels k) l"
    using Cons.prems by simp
  moreover have "length (filter is_pad (concat (map g ks)))
           \<le> length (filter is_pad (concat (map labels ks))) + count_list (concat (map labels ks)) l"
    using Cons by simp
  ultimately show ?case by simp
qed

lemma labels_insertAfter_step:
  "labels (insertAfter p l (Node a u ks)) =
     a # concat (map (\<lambda>k. if label k = l then labels k @ labels p
                          else labels (insertAfter p l k)) ks)"
proof -
  have "concat (map labels (concat (map (\<lambda>k. if label k = l then [k, p]
                                            else [insertAfter p l k]) ks)))
        = concat (map (\<lambda>k. if label k = l then labels k @ labels p
                          else labels (insertAfter p l k)) ks)"
    by (induction ks) auto
  then show ?thesis by simp
qed

lemma count_list_label: "1 \<le> count_list (labels k) (label k)"
  by (cases k) simp

lemma pad_count_insertAfter:
  "length (filter is_pad (labels (insertAfter (createElement_div h) l t)))
     \<le> length (filter is_pad (labels t)) + count_list (labels t) l"
proof (induction t)
  case (Node a u ks)
  let ?g = "\<lambda>k. if label k = l then labels k @ labels (createElement_div h)
                 else labels (insertAfter (createElement_div h) l k)"
  have "length (filter is_pad (?g k))
          \<le> length (filter is_pad (labels k)) + count_list (labels k) l" if "k \<in> set ks" for k
    using Node [OF that] count_list_label [of k] by auto
  from pad_count_children [of ks ?g l, OF this]
  show ?case by (simp only: labels_insertAfter_step) simp
qed

lemma pad_count_insertBefore:
  "length (filter is_pad (labels (insertBefore (createElement_div h) l t)))
     \<le> length (filter is_pad (labels t)) + count_list (labels t) l"
proof (induction t)
  case (Node a u ks)
  let ?g = "\<lambda>k. if label k = l then labels (createElement_div h) @ labels k
                 else labels (insertBefore (createElement_div h) l k)"
  have "length (filter is_pad (?g k))
          \<le> length (filter is_pad (labels k)) + count_list (labels k) l" if "k \<in> set ks" for k
    using Node [OF that] count_list_label [of k] by auto
  from pad_count_children [of ks ?g l, OF this]
  show ?case by (simp only: labels_insertBefore_step) simp
qed

subsection \<open>One closure, one padding\<close>

lemma count_list_elements:
  "\<not> is_pad l \<Longrightarrow> distinct (elements t) \<Longrightarrow> count_list (labels t) l \<le> 1"
  unfolding elements_def by (rule distinct_elements_count)

lemma pad_count_break_after_fn:
  assumes "distinct (elements d)" "\<not> is_pad l"
  shows "length (pad_heights (break_after_fn b H l d)) \<le> length (pad_heights d) + 1"
proof -
  let ?h = "fill_height H (rect_bottom (getBoundingClientRect b d l))"
  have "length (filter is_pad (labels (insertAfter (createElement_div ?h) l d)))
          \<le> length (filter is_pad (labels d)) + count_list (labels d) l"
    by (rule pad_count_insertAfter)
  moreover have "count_list (labels d) l \<le> 1"
    using assms by (intro count_list_elements)
  ultimately show ?thesis
    by (simp add: break_after_fn_def Let_def length_pad_heights)
qed

lemma pad_count_run_pending:
  assumes "distinct (elements d)" "\<forall>e \<in> set pend. \<not> is_pad (fst (snd e))"
  shows "length (pad_heights (run_pending b H pend d)) \<le> length (pad_heights d) + length pend"
  using assms
proof (induction pend arbitrary: d)
  case Nil
  then show ?case by simp
next
  case (Cons e pend)
  obtain uid el ex where e: "e = (uid, el, ex)" by (cases e)
  have 1: "length (pad_heights (break_after_fn b H el d)) \<le> length (pad_heights d) + 1"
    using Cons.prems e by (intro pad_count_break_after_fn) auto
  have "length (pad_heights (run_pending b H pend (break_after_fn b H el d)))
          \<le> length (pad_heights (break_after_fn b H el d)) + length pend"
    using Cons.prems by (intro Cons.IH) auto
  then show ?case using 1 e by simp
qed

lemma set_mark_executed_owner:
  "fst ` snd ` set (mark_executed pend ba) = fst ` snd ` set ba"
  by (force simp: mark_executed_def split: if_splits)

subsection \<open>Trees without padding\<close>

lemma elements_pad_free: "pad_free t \<Longrightarrow> elements t = labels t"
  by (simp add: elements_def pad_free_def)

lemma unexecuted_append [simp]:
  "unexecuted (xs @ ys) = unexecuted xs @ unexecuted ys"
  by (simp add: unexecuted_def)

subsection \<open>The state of the walk at each visit\<close>

lemma label_addUIDRecursive [simp]: "label (addUIDRecursive t uid) = label t"
  by (cases t) simp

lemma walk_inv_init:
  assumes "pad_free rootEl"
  shows "walk_inv rootEl 0 (addUIDRecursive rootEl ''0'', [])"
proof -
  have "l \<in> set (labels (addUIDRecursive rootEl ''0''))"
    if "l \<in> set (querySelectorAll_star rootEl)" for l
    using pad_free_querySelectorAll_star [OF assms that] by simp
  then show ?thesis
    using assms
    by (auto simp: walk_inv_def elements_pad_free getAttribute_uid_tagged pad_heights_pad_free
        unexecuted_def)
qed

lemma walk_inv_step:
  assumes pf: "pad_free rootEl" and dist: "distinct (labels rootEl)"
    and I: "walk_inv rootEl n s" and x: "x \<in> set (querySelectorAll_star rootEl)"
  shows "\<exists>s'. pagebreak_loop c s x = Inr s' \<and> walk_inv rootEl (Suc n) s'"
proof -
  let ?els = "querySelectorAll_star rootEl"
  let ?b = "ctx_browser c" and ?H = "ctx_pxPageHeight c"
  obtain doc ba where s: "s = (doc, ba)" by (cases s)
  have els: "\<not> is_pad l" if "l \<in> set ?els" for l
    using pad_free_querySelectorAll_star [OF pf that] by simp
  have xel: "\<not> is_pad x" using els [OF x] .
  have el_doc: "elements doc = labels rootEl"
    and lab: "label doc = label rootEl"
    and uids: "\<forall>l \<in> set ?els. getAttribute_uid doc l \<noteq> None"
    and owners: "\<forall>e \<in> set ba. \<not> is_pad (fst (snd e))"
    and cnt: "length (pad_heights doc) + length (unexecuted ba) \<le> 2 * n"
    using I s by (auto simp: walk_inv_def)
  from uids x obtain u where u: "getAttribute_uid doc x = Some u" by auto
  from pagebreak_loop_result [OF u, of ba c] obtain pend doc1 doc2 ba2 where
    pend: "pendingBreakAfters ba (Some u) = Inr pend"
    and doc1: "doc1 = run_pending ?b ?H pend doc"
    and doc2: "doc2 = doc1 \<or>
          doc2 = insertBefore (createElement_div (fill_height ?H
                   (rect_top (getBoundingClientRect ?b doc1 x)))) x doc1"
    and ba2: "ba2 = mark_executed pend ba \<or> ba2 = mark_executed pend ba @ [(Some u, x, False)]"
    and res: "pagebreak_loop c (doc, ba) x = Inr (doc2, ba2)"
    by blast
  have d0: "distinct (elements doc)" using el_doc dist by simp
  have "set pend \<subseteq> set ba"
    using pend by (auto simp: pending_eq)
  then have pend_owners: "\<forall>e \<in> set pend. \<not> is_pad (fst (snd e))"
    using owners by blast
  have E1: "elements doc1 = labels rootEl"
    by (simp add: doc1 el_doc)
  have E2: "elements doc2 = labels rootEl"
    using doc2 E1 by (auto simp: elements_insertBefore)
  have L2: "label doc2 = label rootEl"
    using doc2 doc1 lab by auto
  have U1: "getAttribute_uid doc1 l = getAttribute_uid doc l" if "\<not> is_pad l" for l
    using that by (simp add: doc1 getAttribute_uid_run_pending)
  have U2: "getAttribute_uid doc2 l = getAttribute_uid doc l" if "\<not> is_pad l" for l
    using doc2 U1 [OF that] that by (auto simp: getAttribute_uid_insertBefore)
  have U: "\<forall>l \<in> set ?els. getAttribute_uid doc2 l \<noteq> None"
    using uids U2 els by simp
  have O2: "\<forall>e \<in> set ba2. \<not> is_pad (fst (snd e))"
  proof -
    have "fst (snd e) \<in> fst ` snd ` set ba" if "e \<in> set (mark_executed pend ba)" for e
      using that set_mark_executed_owner [of pend ba] by blast
    then have "\<forall>e \<in> set (mark_executed pend ba). \<not> is_pad (fst (snd e))"
      using owners by (metis (no_types, lifting) imageE)
    then show ?thesis using ba2 xel by auto
  qed
  have N1: "length (pad_heights doc1) \<le> length (pad_heights doc) + length pend"
    unfolding doc1 using d0 pend_owners by (rule pad_count_run_pending)
  have "count_list (labels doc1) x \<le> 1"
    using xel E1 dist by (intro count_list_elements) simp_all
  then have "length (pad_heights (insertBefore (createElement_div h) x doc1))
               \<le> length (pad_heights doc1) + 1" for h
    using pad_count_insertBefore [of h x doc1] by (simp add: length_pad_heights)
  then have N2: "length (pad_heights doc2) \<le> length (pad_heights doc1) + 1"
    using doc2 by auto
  have M: "length (unexecuted (mark_executed pend ba)) + length pend = length (unexecuted ba)"
    using pend by (rule unexecuted_mark_executed)
  have N3: "length (unexecuted ba2) \<le> length (unexecuted (mark_executed pend ba)) + 1"
    using ba2 by (auto simp: unexecuted_def)
  have "length (pad_heights doc2) + length (unexecuted ba2) \<le> 2 * Suc n"
    using N1 N2 N3 M cnt by simp
  then show ?thesis using res s E2 L2 U O2 by (simp add: walk_inv_def)
qed

lemma walk_inv_prefix:
  assumes pf: "pad_free rootEl" and dist: "distinct (labels rootEl)"
    and xs: "set xs \<subseteq> set (querySelectorAll_star rootEl)"
  shows "\<exists>s'. forEach (pagebreak_loop c) (addUIDRecursive rootEl ''0'', []) xs = Inr s'
           \<and> walk_inv rootEl (length xs) s'"
proof (rule forEach_invariant_count [where I = "walk_inv rootEl"])
  show "walk_inv rootEl 0 (addUIDRecursive rootEl ''0'', [])"
    using pf by (rule walk_inv_init)
  show "\<exists>s'. pagebreak_loop c s x = Inr s' \<and> walk_inv rootEl (Suc n) s'"
    if "walk_inv rootEl n s" "x \<in> set xs" for n s x
    using walk_inv_step [OF pf dist that(1)] that(2) xs by blast
qed



subsection \<open>The uids of a tree with at most ten children at every node\<close>

lemma decimal_digit: "n < 10 \<Longrightarrow> decimal n = [digit n]"
  by (simp add: decimal.simps)

lemma digit_inj: "i < 10 \<Longrightarrow> j < 10 \<Longrightarrow> digit i = digit j \<Longrightarrow> i = j"
proof -
  assume "i < 10" "j < 10" "digit i = digit j"
  then have "of_char (char_of (48 + i) :: char) = (of_char (char_of (48 + j) :: char) :: nat)"
    by (simp add: digit_def)
  then show "i = j"
    using \<open>i < 10\<close> \<open>j < 10\<close> by simp
qed

lemma subtrees_self: "t \<in> set (subtrees t)"
  by (cases t) simp

lemma subtrees_trans:
  "m \<in> set (subtrees n) \<Longrightarrow> n \<in> set (subtrees t) \<Longrightarrow> m \<in> set (subtrees t)"
proof (induction t)
  case (Node a u ks)
  show ?case
  proof (cases "n = Node a u ks")
    case True
    then show ?thesis using Node.prems by simp
  next
    case False
    then obtain k where "k \<in> set ks" "n \<in> set (subtrees k)"
      using Node.prems by auto
    then have "m \<in> set (subtrees k)" using Node by blast
    then show ?thesis using \<open>k \<in> set ks\<close> by auto
  qed
qed

lemma subtrees_size: "m \<in> set (subtrees n) \<Longrightarrow> size m \<le> size n"
proof (induction n)
  case (Node a u ks)
  show ?case
  proof (cases "m = Node a u ks")
    case True
    then show ?thesis by simp
  next
    case False
    then obtain k where k: "k \<in> set ks" "m \<in> set (subtrees k)"
      using Node.prems by auto
    then have "size m \<le> size k" using Node by blast
    moreover have "size k \<le> size_list size ks"
      using k(1) by (induction ks) auto
    ultimately show ?thesis by simp
  qed
qed

lemma subtrees_uid_prefix:
  "m \<in> set (subtrees (addUIDRecursive t v)) \<Longrightarrow> \<exists>s. attr_uid m = Some (v @ s)"
proof (induction t arbitrary: v)
  case (Node a u ks)
  show ?case
  proof (cases "m = addUIDRecursive (Node a u ks) v")
    case True
    then show ?thesis by simp
  next
    case False
    then obtain i k where "(i, k) \<in> set (zip [0 ..< length ks] ks)"
      "m \<in> set (subtrees (addUIDRecursive k (v @ decimal i)))"
      using Node.prems by auto
    moreover from this have "k \<in> set ks" by (auto dest: set_zip_rightD)
    ultimately obtain s where "attr_uid m = Some ((v @ decimal i) @ s)"
      using Node.IH by blast
    then show ?thesis by simp
  qed
qed


lemma subtrees_tagged_children:
  "x \<in> set (concat (map subtrees
          (map (\<lambda>(i, k). addUIDRecursive k (v @ decimal i)) (zip [0 ..< length ks] ks))))
   \<longleftrightarrow> (\<exists>i < length ks. x \<in> set (subtrees (addUIDRecursive (ks ! i) (v @ decimal i))))"
proof
  assume "x \<in> set (concat (map subtrees
          (map (\<lambda>(i, k). addUIDRecursive k (v @ decimal i)) (zip [0 ..< length ks] ks))))"
  then obtain i k where "(i, k) \<in> set (zip [0 ..< length ks] ks)"
    "x \<in> set (subtrees (addUIDRecursive k (v @ decimal i)))"
    by auto
  then show "\<exists>i < length ks. x \<in> set (subtrees (addUIDRecursive (ks ! i) (v @ decimal i)))"
    by (auto simp: in_set_zip)
next
  assume "\<exists>i < length ks. x \<in> set (subtrees (addUIDRecursive (ks ! i) (v @ decimal i)))"
  then obtain i where i: "i < length ks"
    "x \<in> set (subtrees (addUIDRecursive (ks ! i) (v @ decimal i)))"
    by blast
  then have "(i, ks ! i) \<in> set (zip [0 ..< length ks] ks)"
    unfolding in_set_zip by (intro exI [of _ i]) simp
  then show "x \<in> set (concat (map subtrees
          (map (\<lambda>(i, k). addUIDRecursive k (v @ decimal i)) (zip [0 ..< length ks] ks))))"
    using i(2) by force
qed

lemma size_tagged_child:
  "i < length ks \<Longrightarrow>
     size (addUIDRecursive (ks ! i) (v @ decimal i)) < size (addUIDRecursive (Node a u ks) v)"
proof -
  assume i: "i < length ks"
  let ?ks' = "map (\<lambda>(i, k). addUIDRecursive k (v @ decimal i)) (zip [0 ..< length ks] ks)"
  have "?ks' ! i = addUIDRecursive (ks ! i) (v @ decimal i)"
    using i by simp
  moreover have "i < length ?ks'" using i by simp
  ultimately have "addUIDRecursive (ks ! i) (v @ decimal i) \<in> set ?ks'"
    by (metis nth_mem)
  moreover have "k \<in> set ks' \<Longrightarrow> size k < Suc (size_list size ks')" for k :: node and ks'
    by (induction ks') auto
  ultimately have "size (addUIDRecursive (ks ! i) (v @ decimal i)) < Suc (size_list size ?ks')"
    by blast
  then show ?thesis by (simp add: comp_def)
qed

lemma uid_prefix_iff_descendant:
  assumes "narrow t"
    and "n \<in> set (subtrees (addUIDRecursive t v))"
    and "m \<in> set (subtrees (addUIDRecursive t v))"
    and "attr_uid n = Some un" and "attr_uid m = Some um"
  shows "prefix un um \<longleftrightarrow> m \<in> set (subtrees n)"
  using assms
proof (induction t arbitrary: v n m un um)
  case (Node a u ks)
  let ?T = "addUIDRecursive (Node a u ks) v"
  let ?C = "\<lambda>i. addUIDRecursive (ks ! i) (v @ decimal i)"
  have len: "length ks \<le> 10" and nar: "\<And>k. k \<in> set ks \<Longrightarrow> narrow k"
    using Node.prems(1) by (auto simp: list_all_iff)
  have child: "x \<in> set (subtrees ?T) \<Longrightarrow> x \<noteq> ?T \<Longrightarrow>
      \<exists>i < length ks. x \<in> set (subtrees (?C i))" for x
    using subtrees_tagged_children [of x v ks] by simp
  have dec: "i < length ks \<Longrightarrow> decimal i = [digit i]" for i
    using len by (intro decimal_digit) simp
  have inchild: "\<exists>s. attr_uid x = Some (v @ digit i # s)"
    if "i < length ks" "x \<in> set (subtrees (?C i))" for x i
    using subtrees_uid_prefix [OF that(2)] dec [OF that(1)] by simp
  have other: "i = j"
    if "i < length ks" "j < length ks" "x \<in> set (subtrees (?C i))" "x \<in> set (subtrees (?C j))"
    for x i j
  proof -
    from inchild [OF that(1,3)] inchild [OF that(2,4)] have "digit i = digit j" by auto
    then show ?thesis using that(1,2) len by (intro digit_inj) simp_all
  qed
  show ?case
  proof (cases "n = ?T")
    case True
    then have "un = v" using Node.prems(4) by simp
    moreover obtain s where "um = v @ s"
      using subtrees_uid_prefix [OF Node.prems(3)] Node.prems(5) by auto
    ultimately show ?thesis using True Node.prems(3) by simp
  next
    case False
    then obtain i where i: "i < length ks" "n \<in> set (subtrees (?C i))"
      using child [OF Node.prems(2)] by blast
    obtain s1 where un: "un = v @ digit i # s1"
      using inchild [OF i] Node.prems(4) by auto
    show ?thesis
    proof (cases "m = ?T")
      case True
      then have "um = v" using Node.prems(5) by simp
      then have np: "\<not> prefix un um" by (simp add: un)
      have "size n \<le> size (?C i)" using i(2) by (rule subtrees_size)
      also have "\<dots> < size ?T" using i(1) by (rule size_tagged_child)
      finally have "size n < size m" using True by simp
      then have "m \<notin> set (subtrees n)"
        using subtrees_size [of m n] by auto
      then show ?thesis using np by simp
    next
      case mF: False
      then obtain j where j: "j < length ks" "m \<in> set (subtrees (?C j))"
        using child [OF Node.prems(3)] by blast
      obtain s2 where um: "um = v @ digit j # s2"
        using inchild [OF j] Node.prems(5) by auto
      show ?thesis
      proof (cases "i = j")
        case True
        have "ks ! i \<in> set ks" using i(1) by simp
        from Node.IH [OF this nar [OF this] i(2) _ Node.prems(4,5)] j(2) True
        show ?thesis by simp
      next
        case ij: False
        have "digit i \<noteq> digit j"
          using ij i(1) j(1) len digit_inj [of i j] by auto
        then have np: "\<not> prefix un um" by (simp add: un um)
        have "m \<notin> set (subtrees n)"
        proof
          assume "m \<in> set (subtrees n)"
          then have "m \<in> set (subtrees (?C i))" using i(2) by (rule subtrees_trans)
          then show False using other [OF i(1) j(1) _ j(2)] ij by simp
        qed
        then show ?thesis using np by simp
      qed
    qed
  qed
qed


lemma subtrees_size_eq: "m \<in> set (subtrees n) \<Longrightarrow> size n \<le> size m \<Longrightarrow> m = n"
proof (cases n)
  case (Node a u ks)
  assume m: "m \<in> set (subtrees n)" and le: "size n \<le> size m"
  show ?thesis
  proof (rule ccontr)
    assume "m \<noteq> n"
    then obtain k where k: "k \<in> set ks" "m \<in> set (subtrees k)"
      using m Node by auto
    have "size m \<le> size k" using k(2) by (rule subtrees_size)
    moreover have "size k < Suc (size_list size ks)"
      using k(1) by (induction ks) auto
    ultimately show False using le Node by simp
  qed
qed

text \<open>As long as no element has more than ten element children the uids are what the
  comment above \<^verbatim>\<open>addUIDRecursive\<close> promises: the uid of a node is a prefix of the uid of
  exactly the nodes of its subtree, and no two nodes share a uid.\<close>

lemma uid_unique_narrow:
  assumes "narrow t"
    and "n \<in> set (subtrees (addUIDRecursive t v))"
    and "m \<in> set (subtrees (addUIDRecursive t v))"
    and "attr_uid n = attr_uid m"
  shows "n = m"
proof -
  obtain s where un: "attr_uid n = Some (v @ s)"
    using subtrees_uid_prefix [OF assms(2)] by blast
  then have um: "attr_uid m = Some (v @ s)"
    using assms(4) by simp
  have "m \<in> set (subtrees n)"
    using uid_prefix_iff_descendant [OF assms(1-3) un um] by simp
  moreover have "n \<in> set (subtrees m)"
    using uid_prefix_iff_descendant [OF assms(1) assms(3) assms(2) um un] by simp
  ultimately show ?thesis
    using subtrees_size [of n m] subtrees_size_eq [of m n] by simp
qed

section \<open>The properties\<close>

subsection \<open>C1: a deferred break fires once, on leaving the owner's subtree\<close>

lemma fired_not_pending_again:
  assumes "pendingBreakAfters ba (Some cur) = Inr pend"
    and "pendingBreakAfters (mark_executed pend ba) (Some cur') = Inr pend'"
  shows "set pend' \<subseteq> set ba - set pend"
proof
  fix e assume e: "e \<in> set pend'"
  obtain uid el ex where t: "e = (uid, el, ex)" by (cases e)
  have "e \<in> set (mark_executed pend ba)" and "\<not> ex"
    using assms(2) e t by (auto simp: pending_eq)
  then show "e \<in> set ba - set pend"
    using t by (auto simp: mark_executed_def split: if_splits)
qed

text \<open>
  Claim C1: in every pass each queued entry of \<^verbatim>\<open>breakAfter\<close> is executed at most once, at
  the first visited element whose uid does not begin with the owner's uid, and an entry for
  which no such element is visited is still executed at the end of the walk.

  The list of closures to call at a visit is exactly the unexecuted entries whose uid is not
  a prefix of the visited element's (\<open>pending_eq\<close>), and they are marked so that none is
  called again (\<open>fired_not_pending_again\<close>). The last part fails: nothing runs after the
  loop. Here element 1 contains element 2, both carry the legacy class and nothing follows
  them; both entries are still unexecuted when the walk is over and the container holds no
  padding, although the header of the plugin promises a break after the element.
\<close>

theorem pending_after_never_runs:
  "pagebreak_walk (mk_ctx legacy_browser False False True [El 1, El 2]) nested_last
     = Inr (Node (El 0) (Some ''0'')
              [Node (El 1) (Some ''00'') [Node (El 2) (Some ''000'') []]],
            nested_queue)
   \<and> unexecuted nested_queue = nested_queue
   \<and> toContainer legacy_browser 1000 (only_mode ''legacy'') nested_last
     = Inr (Node (El 0) (Some ''0'')
              [Node (El 1) (Some ''00'') [Node (El 2) (Some ''000'') []]])"
  by code_simp

subsection \<open>C2: uids of addUIDRecursive\<close>

text \<open>
  Claim C2: after tagging (root \<^verbatim>\<open>"0"\<close>, each child its parent's uid followed by its index,
  no separator) every uid is unique, is a strict prefix of the uid of every descendant and
  a prefix of the uid of no other element.

  This holds of every container in which no element has more than ten element children
  (\<open>uid_prefix_iff_descendant\<close>, \<open>uid_unique_narrow\<close>). The index is appended as a decimal
  numeral, though, so the eleventh child of the root receives \<^verbatim>\<open>"010"\<close>, the uid of the first
  child of the root's second child as well. In the container below, elements 11 and 12 share
  a uid, and the uid of element 2 is a prefix of the uid of element 11, which is not below
  element 2.
\<close>

theorem uid_collision_eleven_children:
  "getAttribute_uid (addUIDRecursive eleven_children ''0'') (El 11) = Some ''010''
   \<and> getAttribute_uid (addUIDRecursive eleven_children ''0'') (El 12) = Some ''010''
   \<and> getAttribute_uid (addUIDRecursive eleven_children ''0'') (El 2) = Some ''01''
   \<and> prefix ''01'' ''010''
   \<and> El 11 \<notin> set (labels (Node (El 2) None [Node (El 12) None []]))"
  by code_simp

subsection \<open>C3: one element with page-break-after\<close>

text \<open>
  Claim C3: with mode \<^verbatim>\<open>['css']\<close>, a page height of 1000px and a container whose only
  element has \<^verbatim>\<open>page-break-after: always\<close> and ends at 300px, the pass inserts exactly one
  padding \<^verbatim>\<open>div\<close>, directly after the element, 700px high.

  The closure is queued at the visit of the element and never called, since no element
  follows: the container comes back tagged and without padding. With a second element
  after it the same request gives the 700px \<^verbatim>\<open>div\<close> (\<open>css_after_with_follower\<close>).
\<close>

theorem css_after_last_element_no_spacer:
  "toContainer css_after_browser 1000 (only_mode ''css'') one_child
     = Inr (Node (El 0) (Some ''0'') [Node (El 1) (Some ''00'') []])
   \<and> pad_heights (Node (El 0) (Some ''0'') [Node (El 1) (Some ''00'') []]) = []"
  by code_simp

lemma css_after_with_follower:
  "toContainer css_after_browser 1000 (only_mode ''css'')
     (Node (El 0) None [Node (El 1) None [], Node (El 2) None []])
     = Inr (Node (El 0) (Some ''0'')
              [Node (El 1) (Some ''00'') [], Node (Pad (Px 700)) None [],
               Node (El 2) (Some ''01'') []])"
  by code_simp

subsection \<open>C4: avoid becomes before\<close>



subsection \<open>C5: the rules are a monotone disjunction of their sources\<close>

text \<open>
  Claim C5: the rules of an element are the pointwise disjunction of the sources (the legacy
  class, the computed styles in css mode, the explicit selections; \<open>avoid\<close> starts from the
  avoid-all flag), so enabling another source never clears \<open>before\<close>, \<open>after\<close> or \<open>avoid\<close>.
  Enabling avoid-all empties the \<open>avoid\<close> selection, which is why the last hypothesis is a
  disjunction.
\<close>

theorem resolve_rules_monotone:
  assumes "avoidAll m \<longrightarrow> avoidAll m'" and "css m \<longrightarrow> css m'" and "legacy m \<longrightarrow> legacy m'"
    and "set leg \<subseteq> set leg'"
    and "set (select_before sel) \<subseteq> set (select_before sel')"
    and "set (select_after sel) \<subseteq> set (select_after sel')"
    and "set (select_avoid sel) \<subseteq> set (select_avoid sel') \<or> avoidAll m'"
  shows "(rules_before (resolve_rules m leg sel st el)
            \<longrightarrow> rules_before (resolve_rules m' leg' sel' st el))
       \<and> (rules_after (resolve_rules m leg sel st el)
            \<longrightarrow> rules_after (resolve_rules m' leg' sel' st el))
       \<and> (rules_avoid (resolve_rules m leg sel st el)
            \<longrightarrow> rules_avoid (resolve_rules m' leg' sel' st el))
       \<and> rules_before (resolve_rules m leg sel st el)
           = (css m \<and> js_or (style_breakBefore st) (style_pageBreakBefore st) \<in> set breakOpt
              \<or> el \<in> set (select_before sel))
       \<and> rules_after (resolve_rules m leg sel st el)
           = (legacy m \<and> el \<in> set leg
              \<or> css m \<and> js_or (style_breakAfter st) (style_pageBreakAfter st) \<in> set breakOpt
              \<or> el \<in> set (select_after sel))
       \<and> rules_avoid (resolve_rules m leg sel st el)
           = (avoidAll m
              \<or> css m \<and> js_or (style_breakInside st) (style_pageBreakInside st) \<in> set avoidOpt
              \<or> el \<in> set (select_avoid sel))"
  using assms unfolding resolve_rules_or by auto

theorem resolve_rules_monotone_witness:
  "set [] \<subseteq> set [El 1]
   \<and> rules_before (resolve_rules css_mode [] no_select page_before_style (El 1))
   \<and> rules_before (resolve_rules css_legacy_mode [El 1] no_select page_before_style (El 1))
   \<and> \<not> rules_after (resolve_rules css_mode [] no_select page_before_style (El 1))
   \<and> rules_after (resolve_rules css_legacy_mode [El 1] no_select page_before_style (El 1))"
proof -
  have m: "avoidAll css_mode \<longrightarrow> avoidAll css_legacy_mode"
    "css css_mode \<longrightarrow> css css_legacy_mode"
    "legacy css_mode \<longrightarrow> legacy css_legacy_mode"
    by (simp_all add: css_mode_def css_legacy_mode_def)
  have l: "set [] \<subseteq> set [El 1]"
    by simp
  have s: "set (select_before no_select) \<subseteq> set (select_before no_select)"
    "set (select_after no_select) \<subseteq> set (select_after no_select)"
    "set (select_avoid no_select) \<subseteq> set (select_avoid no_select) \<or> avoidAll css_legacy_mode"
    by simp_all
  have b: "rules_before (resolve_rules css_mode [] no_select page_before_style (El 1))"
    by code_simp
  have a: "\<not> rules_after (resolve_rules css_mode [] no_select page_before_style (El 1))"
    "rules_after (resolve_rules css_legacy_mode [El 1] no_select page_before_style (El 1))"
    by code_simp+
  from resolve_rules_monotone [OF m l s, of page_before_style "El 1"] b
  have "rules_before (resolve_rules css_legacy_mode [El 1] no_select page_before_style (El 1))"
    by blast
  then show ?thesis using l b a by blast
qed

subsection \<open>C6: pending closures run in reverse order of insertion\<close>



text \<open>The whole pass on that container: B (element 2) is padded while the tree holds no
  padding (900px), A (element 1) after it (800px).\<close>

lemma nested_after_inner_first:
  "toContainer legacy_browser 1000 (only_mode ''legacy'') nested_then_sibling
     = Inr (Node (El 0) (Some ''0'')
              [Node (El 1) (Some ''00'')
                 [Node (El 2) (Some ''000'') [], Node (Pad (Px 900)) None []],
               Node (Pad (Px 800)) None [],
               Node (El 3) (Some ''01'') []])"
  by code_simp

subsection \<open>C7: the padding before an element\<close>



subsection \<open>C8: what the pass changes in the tree\<close>

text \<open>
  Claim C8: every node of the container is still there after the pass, in the same order,
  and the only change of the tree is the insertion of padding \<^verbatim>\<open>div\<close>s; no node is removed,
  moved or otherwise modified.

  As stated this fails: \<open>addUIDRecursive\<close> sets the attribute \<^verbatim>\<open>uid\<close> on every element, the
  root included. Without its padding the container after the pass is not the container
  before it.
\<close>

theorem toContainer_sets_uid_attributes:
  "toContainer straddling_browser 1000 (only_mode ''avoid-all'') one_child
     = Inr (Node (El 0) (Some ''0'') [Node (Pad (Px 100)) None [], Node (El 1) (Some ''00'') []])
   \<and> strip_pads (Node (El 0) (Some ''0'')
                   [Node (Pad (Px 100)) None [], Node (El 1) (Some ''00'') []])
     \<noteq> one_child"
  by code_simp

text \<open>
  Claim C8, amended: every node of the container is still there after the pass, in the same
  order, and the only changes of the tree are the \<^verbatim>\<open>uid\<close> attribute set on every element
  and the inserted padding; no node is removed or moved.

  A pass either stops at an invalid selector, before it has touched the tree, or completes.
  Without the padding the result is the tagged container, which is the container itself up
  to the \<^verbatim>\<open>uid\<close> attributes.
\<close>

theorem toContainer_frame:
  assumes "pad_free rootEl"
  shows "(\<exists>e. setup_ctx b pxPageHeight opt rootEl = Inl e
            \<and> toContainer b pxPageHeight opt rootEl = Inl e)
       \<or> (\<exists>doc. toContainer b pxPageHeight opt rootEl = Inr doc
            \<and> strip_pads doc = addUIDRecursive rootEl ''0''
            \<and> clear_uid (strip_pads doc) = clear_uid rootEl)"
proof (cases "setup_ctx b pxPageHeight opt rootEl")
  case (Inl e)
  then show ?thesis by (simp add: toContainer_def)
next
  case (Inr c)
  from pagebreak_walk_invariant [where P = "\<lambda>d. True" and c = c, OF assms]
  obtain doc ba where walk: "pagebreak_walk c rootEl = Inr (doc, ba)"
    and strip: "strip_pads doc = addUIDRecursive rootEl ''0''"
    by blast
  have "toContainer b pxPageHeight opt rootEl = Inr doc"
    using Inr walk by (simp add: toContainer_def)
  then show ?thesis using strip by simp
qed

theorem toContainer_frame_witness:
  "pad_free one_child
   \<and> toContainer straddling_browser 1000 (only_mode ''avoid-all'') one_child
       = Inr (Node (El 0) (Some ''0'') [Node (Pad (Px 100)) None [], Node (El 1) (Some ''00'') []])
   \<and> strip_pads (Node (El 0) (Some ''0'')
                   [Node (Pad (Px 100)) None [], Node (El 1) (Some ''00'') []])
       = addUIDRecursive one_child ''0''
   \<and> clear_uid (addUIDRecursive one_child ''0'') = clear_uid one_child"
proof -
  have 1: "pad_free one_child"
    by (simp add: pad_free_def one_child_def)
  have 2: "toContainer straddling_browser 1000 (only_mode ''avoid-all'') one_child
       = Inr (Node (El 0) (Some ''0'') [Node (Pad (Px 100)) None [], Node (El 1) (Some ''00'') []])"
    by code_simp
  show ?thesis
    using 1 2 toContainer_frame [OF 1, of straddling_browser 1000 "only_mode ''avoid-all''"]
    by auto
qed

subsection \<open>C9: the walk visits a snapshot\<close>

text \<open>
  Claim C9: the elements visited are fixed before the walk begins, so an inserted padding
  \<^verbatim>\<open>div\<close> is never visited: it gets no rules and triggers no further padding.

  The walk folds over the elements found below the root before the first insertion. On a
  container of document elements with unique references none of them is padding, the walk
  completes, the document elements of the result are those of the container, and at most
  two \<^verbatim>\<open>div\<close>s are inserted for each visited element.
\<close>

theorem walk_visits_snapshot:
  assumes pf: "pad_free rootEl" and dist: "distinct (labels rootEl)"
  shows "pagebreak_walk c rootEl
           = forEach (pagebreak_loop c) (addUIDRecursive rootEl ''0'', [])
               (querySelectorAll_star rootEl)
       \<and> list_all (\<lambda>l. \<not> is_pad l) (querySelectorAll_star rootEl)
       \<and> (\<exists>doc ba. pagebreak_walk c rootEl = Inr (doc, ba)
             \<and> elements doc = labels rootEl
             \<and> length (pad_heights doc) \<le> 2 * length (querySelectorAll_star rootEl))"
proof -
  let ?els = "querySelectorAll_star rootEl"
  have walk: "pagebreak_walk c rootEl
                = forEach (pagebreak_loop c) (addUIDRecursive rootEl ''0'', []) ?els"
    by (simp add: pagebreak_walk_def Let_def)
  have snapshot: "list_all (\<lambda>l. \<not> is_pad l) ?els"
    using pad_free_querySelectorAll_star [OF pf] by (simp add: list_all_iff)
  from walk_inv_prefix [OF pf dist subset_refl, of c]
  obtain s' where fin: "forEach (pagebreak_loop c) (addUIDRecursive rootEl ''0'', []) ?els = Inr s'"
    "walk_inv rootEl (length ?els) s'"
    by blast
  have "\<exists>doc ba. pagebreak_walk c rootEl = Inr (doc, ba)
             \<and> elements doc = labels rootEl
             \<and> length (pad_heights doc) \<le> 2 * length ?els"
    using fin walk by (cases s') (auto simp: walk_inv_def)
  then show ?thesis using walk snapshot by blast
qed

theorem walk_visits_snapshot_witness:
  "pad_free nested_then_sibling \<and> distinct (labels nested_then_sibling)
   \<and> (\<exists>doc ba. pagebreak_walk (mk_ctx legacy_browser False False True [El 1, El 2])
                  nested_then_sibling = Inr (doc, ba)
         \<and> elements doc = labels nested_then_sibling
         \<and> length (pad_heights doc) \<le> 2 * length (querySelectorAll_star nested_then_sibling))"
proof -
  have 1: "pad_free nested_then_sibling"
    by (simp add: pad_free_def nested_then_sibling_def)
  have 2: "distinct (labels nested_then_sibling)"
    by (simp add: nested_then_sibling_def)
  show ?thesis
    using 1 2 walk_visits_snapshot [OF 1 2, of "mk_ctx legacy_browser False False True [El 1, El 2]"]
    by blast
qed

subsection \<open>C10: the height of the padding\<close>

text \<open>
  Claim C10: for a positive page height every inserted padding has a height \<open>h\<close> with
  \<open>0 < h \<le> pxPageHeight\<close>, and a top (or bottom) that is an exact multiple of the page
  height gives a padding of a whole page.

  As stated this fails for an element that starts above the viewport: \<^verbatim>\<open>%\<close> keeps the sign
  of the dividend, so \<^verbatim>\<open>-100 % 1000\<close> is \<^verbatim>\<open>-100\<close> and the padding is 1100px high.
\<close>

theorem spacer_taller_than_page:
  "toContainer scrolled_browser 1000 (only_mode ''avoid-all'') one_child
     = Inr (Node (El 0) (Some ''0'') [Node (Pad (Px 1100)) None [], Node (El 1) (Some ''00'') []])
   \<and> \<not> spacer_ok 1000 (Px 1100)"
  by code_simp

text \<open>
  Claim C10, amended: for a positive page height and a browser that reports no negative top
  or bottom, the pass completes and every padding of the result has a height \<open>h\<close> with
  \<open>0 < h \<le> pxPageHeight\<close>; a top (or bottom) that is an exact multiple of the page height
  gives a padding of a whole page.
\<close>

theorem spacer_heights_bounded:
  assumes H: "0 < ctx_pxPageHeight c"
    and rect: "\<And>doc l. 0 \<le> rect_top (getBoundingClientRect (ctx_browser c) doc l)
                    \<and> 0 \<le> rect_bottom (getBoundingClientRect (ctx_browser c) doc l)"
    and pf: "pad_free rootEl"
  shows "(\<exists>doc ba. pagebreak_walk c rootEl = Inr (doc, ba)
            \<and> list_all (spacer_ok (ctx_pxPageHeight c)) (pad_heights doc))
       \<and> (\<forall>k. fill_height (ctx_pxPageHeight c) (of_int k * ctx_pxPageHeight c)
                = Px (ctx_pxPageHeight c))"
proof -
  let ?H = "ctx_pxPageHeight c"
  let ?P = "\<lambda>d. list_all (spacer_ok ?H) (pad_heights d)"
  have ok: "spacer_ok ?H (fill_height ?H y)" if "0 \<le> y" for y
    using fill_height_bounds [OF H that] by (auto simp: spacer_ok_def)
  have init: "?P (addUIDRecursive rootEl ''0'')"
    using pf by (simp add: pad_heights_pad_free)
  have after: "?P (break_after_fn (ctx_browser c) ?H l d)" if "?P d" for d l
  proof -
    let ?h = "fill_height ?H (rect_bottom (getBoundingClientRect (ctx_browser c) d l))"
    have "spacer_ok ?H ?h" using ok rect by blast
    then show ?thesis
      using that pad_heights_break_after_fn [of "ctx_browser c" ?H l d]
      by (auto simp: list_all_iff)
  qed
  have before: "?P (insertBefore (createElement_div (fill_height ?H
             (rect_top (getBoundingClientRect (ctx_browser c) d l)))) l d)" if "?P d" for d l
  proof -
    let ?h = "fill_height ?H (rect_top (getBoundingClientRect (ctx_browser c) d l))"
    have "spacer_ok ?H ?h" using ok rect by blast
    then show ?thesis
      using that pad_heights_insertBefore [of ?h l d] by (auto simp: list_all_iff)
  qed
  from pagebreak_walk_invariant [where P = ?P, OF pf init after before]
  have "\<exists>doc ba. pagebreak_walk c rootEl = Inr (doc, ba) \<and> ?P doc"
    by blast
  then show ?thesis using fill_height_multiple [OF H] by blast
qed

text \<open>An element with \<^verbatim>\<open>break-before: page\<close> whose top is at 2000px, the start of the third
  page, is pushed a whole page further.\<close>

lemma aligned_element_whole_page:
  "toContainer aligned_browser 1000 (only_mode ''css'') one_child
     = Inr (Node (El 0) (Some ''0'') [Node (Pad (Px 1000)) None [], Node (El 1) (Some ''00'') []])"
  by code_simp

theorem spacer_heights_bounded_witness:
  "0 < ctx_pxPageHeight (mk_ctx straddling_browser True False False [])
   \<and> pad_free one_child
   \<and> (\<exists>doc ba. pagebreak_walk (mk_ctx straddling_browser True False False []) one_child
                  = Inr (doc, ba)
         \<and> list_all (spacer_ok 1000) (pad_heights doc))
   \<and> fill_height 1000 2000 = Px 1000"
proof -
  let ?c = "mk_ctx straddling_browser True False False []"
  have 1: "0 < ctx_pxPageHeight ?c"
    by (simp add: mk_ctx_def)
  have 2: "0 \<le> rect_top (getBoundingClientRect (ctx_browser ?c) doc l)
         \<and> 0 \<le> rect_bottom (getBoundingClientRect (ctx_browser ?c) doc l)" for doc l
    by (simp add: mk_ctx_def straddling_browser_def)
  have 3: "pad_free one_child"
    by (simp add: pad_free_def one_child_def)
  have 4: "ctx_pxPageHeight ?c = 1000"
    by (simp add: mk_ctx_def)
  from spacer_heights_bounded [OF 1 2 3]
  have "(\<exists>doc ba. pagebreak_walk ?c one_child = Inr (doc, ba)
           \<and> list_all (spacer_ok 1000) (pad_heights doc))
        \<and> (\<forall>k. fill_height 1000 (of_int k * 1000) = Px 1000)"
    unfolding 4 .
  then have "(\<exists>doc ba. pagebreak_walk ?c one_child = Inr (doc, ba)
           \<and> list_all (spacer_ok 1000) (pad_heights doc))"
    and "fill_height 1000 (of_int 2 * 1000) = Px 1000"
    by blast+
  then show ?thesis using 1 3 by simp
qed

end
